theory Spec2Isabelle
  imports Complex_Main "HOL-Library.Log_Nat"
begin

section \<open>Retirement planning calculator: the calculation engine of streamlit\_app.py\<close>

text \<open>
  The engine is five helper functions and the handler of the button
  ``Calculate Savings Projection''. Integers of the program (ages, years, the income
  field) are \<^typ>\<open>int\<close>, its strings are \<^typ>\<open>string\<close>, \<open>None\<close> is \<^const>\<open>None\<close>.

  The money amounts and the rate are Python floats: a finite binary64 number (a
  rational), an infinity or a NaN. A float operation on finite numbers is the exact
  operation followed by rounding; the rounding can overflow to an infinity and, below
  the normal range, lands on the subnormal grid. \<open>math.pow\<close> raises \<open>OverflowError\<close> when
  the power overflows, a float division by zero raises \<open>ZeroDivisionError\<close>. Every
  such exception is a value of the model. The two zeros of the format are one value:
  the program cannot tell them apart (it never divides by a zero without raising and
  never takes a sign).

  Three things differ between the platforms the program can run on and are parameters:
  the rounding (binary64 on every platform of CPython, \<open>rnd64\<close> below), the C library's
  \<open>pow\<close>, of which the theorems assume only what they state, and whether \<open>sum\<close> adds
  with compensation (CPython 3.12 and later) or plainly (up to 3.11).
\<close>

subsection \<open>Floats and exceptions\<close>

datatype pyfloat = Fin rat | PInf | NInf | NaN

datatype py_error = OverflowError | ValueError | ZeroDivisionError

record arith =
  rnd :: "rat \<Rightarrow> pyfloat"
  pw :: "rat \<Rightarrow> rat \<Rightarrow> pyfloat"
  compensated :: bool

text \<open>\<open>-x\<close>, \<open>x + y\<close>, \<open>x - y\<close>, \<open>x * y\<close> on floats, with the IEEE rules for the infinities
  and NaN. None of them raises in Python.\<close>

fun fneg :: "pyfloat \<Rightarrow> pyfloat" where
  "fneg (Fin x) = Fin (- x)"
| "fneg PInf = NInf"
| "fneg NInf = PInf"
| "fneg NaN = NaN"

fun fadd :: "arith \<Rightarrow> pyfloat \<Rightarrow> pyfloat \<Rightarrow> pyfloat" where
  "fadd A (Fin x) (Fin y) = rnd A (x + y)"
| "fadd A NaN y = NaN"
| "fadd A x NaN = NaN"
| "fadd A PInf NInf = NaN"
| "fadd A NInf PInf = NaN"
| "fadd A PInf y = PInf"
| "fadd A x PInf = PInf"
| "fadd A NInf y = NInf"
| "fadd A x NInf = NInf"

definition fsub :: "arith \<Rightarrow> pyfloat \<Rightarrow> pyfloat \<Rightarrow> pyfloat" where
  "fsub A x y = fadd A x (fneg y)"

text \<open>An infinity times a finite number: the sign rule, and NaN for a zero.\<close>

definition inf_times :: "pyfloat \<Rightarrow> rat \<Rightarrow> pyfloat" where
  "inf_times i y = (if y = 0 then NaN else if 0 < y then i else fneg i)"

fun fmul :: "arith \<Rightarrow> pyfloat \<Rightarrow> pyfloat \<Rightarrow> pyfloat" where
  "fmul A (Fin x) (Fin y) = rnd A (x * y)"
| "fmul A NaN y = NaN"
| "fmul A x NaN = NaN"
| "fmul A PInf (Fin y) = inf_times PInf y"
| "fmul A NInf (Fin y) = inf_times NInf y"
| "fmul A (Fin x) PInf = inf_times PInf x"
| "fmul A (Fin x) NInf = inf_times NInf x"
| "fmul A PInf PInf = PInf"
| "fmul A NInf NInf = PInf"
| "fmul A PInf NInf = NInf"
| "fmul A NInf PInf = NInf"

text \<open>\<open>x / y\<close>: Python raises for a zero divisor, whatever the dividend.\<close>

fun fdiv :: "arith \<Rightarrow> pyfloat \<Rightarrow> pyfloat \<Rightarrow> py_error + pyfloat" where
  "fdiv A x (Fin y) =
     (if y = 0 then Inl ZeroDivisionError
      else case x of
             Fin a \<Rightarrow> Inr (rnd A (a / y))
           | NaN \<Rightarrow> Inr NaN
           | i \<Rightarrow> Inr (if 0 < y then i else fneg i))"
| "fdiv A NaN y = Inr NaN"
| "fdiv A x NaN = Inr NaN"
| "fdiv A (Fin a) y = Inr (Fin 0)"
| "fdiv A x y = Inr NaN"

text \<open>\<open>x < y\<close> and \<open>abs(x) >= abs(y)\<close>; a comparison with NaN is false.\<close>

fun flt :: "pyfloat \<Rightarrow> pyfloat \<Rightarrow> bool" where
  "flt (Fin x) (Fin y) = (x < y)"
| "flt NaN y = False"
| "flt x NaN = False"
| "flt x NInf = False"
| "flt NInf y = True"
| "flt PInf y = False"
| "flt x PInf = True"

fun abs_ge :: "pyfloat \<Rightarrow> pyfloat \<Rightarrow> bool" where
  "abs_ge (Fin x) (Fin y) = (\<bar>y\<bar> \<le> \<bar>x\<bar>)"
| "abs_ge NaN y = False"
| "abs_ge x NaN = False"
| "abs_ge (Fin x) y = False"
| "abs_ge x y = True"

text \<open>\<open>math.pow(x, k)\<close> for an integer \<open>k\<close>. The integer is converted to a float first,
  which raises \<open>OverflowError\<close> when it is too large. A NaN or infinite base is decided
  by \<open>math.pow\<close> itself; otherwise C's \<open>pow\<close> is called, and a NaN from it raises
  \<open>ValueError\<close>, an infinity raises \<open>ValueError\<close> for a zero base and \<open>OverflowError\<close>
  otherwise.\<close>

definition odd_float :: "rat \<Rightarrow> bool" where
  "odd_float y \<longleftrightarrow> \<bar>y\<bar> = of_int \<lfloor>\<bar>y\<bar>\<rfloor> \<and> odd \<lfloor>\<bar>y\<bar>\<rfloor>"

definition py_pow :: "arith \<Rightarrow> pyfloat \<Rightarrow> int \<Rightarrow> py_error + pyfloat" where
  "py_pow A x k =
     (case rnd A (of_int k) of
        Fin y \<Rightarrow>
          (case x of
             NaN \<Rightarrow> Inr (if y = 0 then Fin 1 else NaN)
           | PInf \<Rightarrow> Inr (if 0 < y then PInf else if y = 0 then Fin 1 else Fin 0)
           | NInf \<Rightarrow> Inr (if 0 < y then (if odd_float y then NInf else PInf)
                           else if y = 0 then Fin 1 else Fin 0)
           | Fin a \<Rightarrow>
               (case pw A a y of
                  Fin p \<Rightarrow> Inr (Fin p)
                | NaN \<Rightarrow> Inl ValueError
                | i \<Rightarrow> Inl (if a = 0 then ValueError else OverflowError)))
      | i \<Rightarrow> Inl OverflowError)"

subsection \<open>The rounding of binary64\<close>

text \<open>\<open>ilog2 x\<close> is the exponent \<open>e\<close> with \<open>2^e \<le> x < 2^(e+1)\<close>; \<open>round_half_even\<close> is
  rounding to the nearest integer, a tie going to the even one (it is also what
  Python's \<open>round\<close> does to a float). \<open>round_to_grid\<close> rounds to 53 significant bits,
  and to multiples of \<open>2^-1074\<close> below \<open>2^-1022\<close>; \<open>rnd64\<close> overflows to an infinity when
  that reaches \<open>2^1024\<close>.\<close>

definition ilog2 :: "rat \<Rightarrow> int" where
  "ilog2 x = (let (p, q) = quotient_of x; d = bitlen p - bitlen q
              in if power_int 2 d \<le> x then d else d - 1)"

definition round_half_even :: "rat \<Rightarrow> int" where
  "round_half_even x =
     (let f = \<lfloor>x\<rfloor>; d = x - of_int f
      in if d < 1 / 2 then f
         else if 1 / 2 < d then f + 1
         else if even f then f else f + 1)"

definition expo :: "rat \<Rightarrow> int" where
  "expo x = max (ilog2 x) (- 1022)"

definition round_to_grid :: "rat \<Rightarrow> rat" where
  "round_to_grid x =
     (if x = 0 then 0
      else let ulp = power_int 2 (expo \<bar>x\<bar> - 52)
           in sgn x * of_int (round_half_even (\<bar>x\<bar> / ulp)) * ulp)"

definition rnd64 :: "rat \<Rightarrow> pyfloat" where
  "rnd64 x =
     (let y = round_to_grid x
      in if 2 ^ 1024 \<le> y then PInf else if y \<le> - (2 ^ 1024) then NInf else Fin y)"

text \<open>A reference \<open>pow\<close>: the correctly rounded power, an infinity at the pole. Only
  integer exponents reach it. It stands for the C library in the closed examples below,
  which use bases 1 and 2 only, where every \<open>pow\<close> is exact.\<close>

definition pw64 :: "rat \<Rightarrow> rat \<Rightarrow> pyfloat" where
  "pw64 x y = (if x = 0 \<and> y < 0 then PInf else rnd64 (power_int x \<lfloor>y\<rfloor>))"

definition binary64 :: "bool \<Rightarrow> arith" where
  "binary64 c = \<lparr>rnd = rnd64, pw = pw64, compensated = c\<rparr>"

subsection \<open>Strings\<close>

text \<open>The texts of the program contain three characters outside ASCII; they are kept as
  their UTF-8 bytes.\<close>

definition en_dash :: string where
  "en_dash = [CHR 0xE2, CHR 0x80, CHR 0x93]"

definition em_dash :: string where
  "em_dash = [CHR 0xE2, CHR 0x80, CHR 0x94]"

definition right_arrow :: string where
  "right_arrow = [CHR 0xE2, CHR 0x86, CHR 0x92]"

text \<open>\<open>str(n)\<close> for an integer, as the f-string prints it.\<close>

fun str_nat :: "nat \<Rightarrow> string" where
  "str_nat n = (if n < 10 then [char_of (48 + n)]
                else str_nat (n div 10) @ [char_of (48 + n mod 10)])"

definition str_int :: "int \<Rightarrow> string" where
  "str_int i = (if i < 0 then ''-'' @ str_nat (nat (- i)) else str_nat (nat i))"

subsection \<open>Helper functions\<close>

definition account_401k :: string where
  "account_401k = ''401(k) '' @ em_dash @
     '' contribute at least enough to get your employer match. Consider a Roth IRA for tax-free withdrawals.''"

definition account_self_employed :: string where
  "account_self_employed = ''SEP IRA or Solo 401(k) '' @ em_dash @ '' great for business owners.''"

definition account_roth :: string where
  "account_roth = ''Roth IRA (if eligible). If not, consider Traditional IRA or brokerage.''"

definition account_traditional :: string where
  "account_traditional = ''Traditional IRA or taxable brokerage account.''"

definition recommend_account :: "string \<Rightarrow> bool \<Rightarrow> int option \<Rightarrow> string" where
  "recommend_account employment has_401k income =
     (if employment = ''Employed'' \<and> has_401k then account_401k
      else if employment = ''Self-Employed'' then account_self_employed
      else if (case income of None \<Rightarrow> True | Some i \<Rightarrow> i < 145000) then account_roth
      else account_traditional)"

definition recommend_allocation :: "int \<Rightarrow> string \<Rightarrow> int \<times> int" where
  "recommend_allocation age risk =
     (let base_stock = (if age < 30 then 90
                        else if age < 40 then 85
                        else if age < 50 then 75
                        else if age < 60 then 65
                        else 50);
          stock = (if risk = ''High'' then min 95 (base_stock + 10)
                   else if risk = ''Low'' then max 30 (base_stock - 20)
                   else base_stock);
          bond = 100 - stock
      in (stock, bond))"

definition guidance_generic :: string where
  "guidance_generic = ''Try to save 10'' @ en_dash @
     ''15% of your income. If unsure, start with what you can and increase over time.''"

text \<open>\<open>round(x)\<close> of a float: an integer, \<open>ValueError\<close> for a NaN, \<open>OverflowError\<close> for an
  infinity.\<close>

fun py_round :: "pyfloat \<Rightarrow> py_error + int" where
  "py_round (Fin x) = Inr (round_half_even x)"
| "py_round NaN = Inl ValueError"
| "py_round i = Inl OverflowError"

text \<open>\<open>round((income * c) / 12)\<close> for the float literal \<open>c\<close>: the integer \<open>income\<close> is
  converted to a float by the multiplication, which raises when it is too large.\<close>

definition monthly_share :: "arith \<Rightarrow> int \<Rightarrow> rat \<Rightarrow> py_error + int" where
  "monthly_share A income c =
     (case rnd A (of_int income) of
        Fin i \<Rightarrow>
          (case fdiv A (fmul A (Fin i) (rnd A c)) (Fin 12) of
             Inl e \<Rightarrow> Inl e
           | Inr q \<Rightarrow> py_round q)
      | other \<Rightarrow> Inl OverflowError)"

text \<open>The literals \<open>0.10\<close> and \<open>0.15\<close> are the floats nearest to one tenth and to
  fifteen hundredths.\<close>

definition contribution_guidance :: "arith \<Rightarrow> int option \<Rightarrow> py_error + string" where
  "contribution_guidance A income =
     (case income of
        None \<Rightarrow> Inr guidance_generic
      | Some i \<Rightarrow>
          (case monthly_share A i (10 / 100) of
             Inl e \<Rightarrow> Inl e
           | Inr monthly_10 \<Rightarrow>
               (case monthly_share A i (15 / 100) of
                  Inl e \<Rightarrow> Inl e
                | Inr monthly_15 \<Rightarrow>
                    Inr (''Goal: 10'' @ en_dash @ ''15% of income '' @ right_arrow @ '' about $'' @
                         str_int monthly_10 @ ''/mo to $'' @ str_int monthly_15 @ ''/mo''))))"

text \<open>Line 73, \<open>income = st.number_input(...) or None\<close>: the integer of the income field,
  with the falsy value 0 replaced by \<open>None\<close>.\<close>

definition income_input :: "int \<Rightarrow> int option" where
  "income_input v = (if v = 0 then None else Some v)"

text \<open>\<open>explain_risk\<close>: a lookup with the same fall-through as the allocation.\<close>

definition explain_risk :: "string \<Rightarrow> string" where
  "explain_risk risk =
     (if risk = ''Low'' then ''Low risk: more bonds. Smaller swings, slower growth.''
      else if risk = ''High'' then ''High risk: more stocks. Bigger swings, higher growth potential.''
      else ''Medium risk: balance of stocks and bonds.'')"

subsection \<open>The savings projector\<close>

text \<open>\<open>r = annual_return / 100 / 12\<close>. The divisors are not zero, so the divisions do
  not raise; the model keeps the general division all the same.\<close>

definition monthly_rate :: "arith \<Rightarrow> pyfloat \<Rightarrow> py_error + pyfloat" where
  "monthly_rate A annual_return =
     (case fdiv A annual_return (Fin 100) of
        Inl e \<Rightarrow> Inl e
      | Inr q \<Rightarrow> fdiv A q (Fin 12))"

text \<open>The loop \<open>for m in range(1, months + 1): fv += monthly_contribution * pow(1 + r, months - m + 1)\<close>,
  entered with \<open>m = 1\<close>. It ends for every integer \<open>months\<close>, and at once when
  \<open>months \<le> 0\<close>; an exception of \<open>pow\<close> ends it.\<close>

function ps_loop ::
  "arith \<Rightarrow> pyfloat \<Rightarrow> pyfloat \<Rightarrow> int \<Rightarrow> int \<Rightarrow> pyfloat \<Rightarrow> py_error + pyfloat" where
  "ps_loop A monthly_contribution r months m fv =
     (if m < months + 1
      then (case py_pow A (fadd A (Fin 1) r) (months - m + 1) of
              Inl e \<Rightarrow> Inl e
            | Inr p \<Rightarrow> ps_loop A monthly_contribution r months (m + 1)
                        (fadd A fv (fmul A monthly_contribution p)))
      else Inr fv)"
  by pat_completeness auto
termination
  by (relation "measure (\<lambda>(A, monthly_contribution, r, months, m, fv). nat (months + 1 - m))") auto

declare ps_loop.simps [simp del]

definition project_savings ::
  "arith \<Rightarrow> pyfloat \<Rightarrow> pyfloat \<Rightarrow> int \<Rightarrow> pyfloat \<Rightarrow> py_error + pyfloat" where
  "project_savings A current_savings monthly_contribution years annual_return =
     (case monthly_rate A annual_return of
        Inl e \<Rightarrow> Inl e
      | Inr r \<Rightarrow>
          (let months = years * 12
           in case py_pow A (fadd A (Fin 1) r) months of
                Inl e \<Rightarrow> Inl e
              | Inr p \<Rightarrow> ps_loop A monthly_contribution r months 1 (fmul A current_savings p)))"

subsection \<open>The handler of ``Calculate Savings Projection''\<close>

text \<open>What a press of the button does, in order: the calls of \<open>project_savings\<close>, the
  messages put on the page, and the exception that ends the run, if any. The formatted
  texts are kept as the numbers they print.\<close>

datatype ui_event =
    Error_horizon
  | Call_project_savings pyfloat pyfloat int pyfloat
  | Subheader_projected int pyfloat
  | Error_shortfall pyfloat
  | Info_needed_extra pyfloat
  | Success_on_track
  | Raised py_error

text \<open>\<open>sum\<close> of a list of floats. Up to CPython 3.11 the additions start from the integer
  0 and run from left to right. From 3.12 on the first float is added to 0 and the rest
  is added with the compensation of Neumaier: the rounding error of each addition is
  collected in \<open>c\<close>, which is added at the end unless it is zero or not finite.\<close>

fun neumaier :: "arith \<Rightarrow> pyfloat \<Rightarrow> pyfloat \<Rightarrow> pyfloat list \<Rightarrow> pyfloat" where
  "neumaier A f c [] =
     (case c of Fin d \<Rightarrow> (if d = 0 then f else fadd A f c) | other \<Rightarrow> f)"
| "neumaier A f c (x # xs) =
     (let t = fadd A f x
      in neumaier A t
           (if abs_ge f x then fadd A c (fadd A (fsub A f t) x)
            else fadd A c (fadd A (fsub A x t) f))
           xs)"

definition py_sum :: "arith \<Rightarrow> pyfloat list \<Rightarrow> pyfloat" where
  "py_sum A xs =
     (if compensated A
      then (case xs of [] \<Rightarrow> Fin 0 | x # rest \<Rightarrow> neumaier A (fadd A (Fin 0) x) (Fin 0) rest)
      else foldl (fadd A) (Fin 0) xs)"

text \<open>The values \<open>pow(1 + r, months - m + 1)\<close> for \<open>m\<close> in the given list, in order; the
  first exception ends the generator.\<close>

fun pow_list :: "arith \<Rightarrow> pyfloat \<Rightarrow> int \<Rightarrow> int list \<Rightarrow> py_error + pyfloat list" where
  "pow_list A b months [] = Inr []"
| "pow_list A b months (m # ms) =
     (case py_pow A b (months - m + 1) of
        Inl e \<Rightarrow> Inl e
      | Inr p \<Rightarrow> (case pow_list A b months ms of Inl e \<Rightarrow> Inl e | Inr ps \<Rightarrow> Inr (p # ps)))"

text \<open>Lines 118 to 121, the shortfall block.\<close>

definition future_factor :: "arith \<Rightarrow> int \<Rightarrow> pyfloat \<Rightarrow> py_error + pyfloat" where
  "future_factor A years expected_return =
     (case monthly_rate A expected_return of
        Inl e \<Rightarrow> Inl e
      | Inr r \<Rightarrow>
          (let months = years * 12
           in case pow_list A (fadd A (Fin 1) r) months [1..months] of
                Inl e \<Rightarrow> Inl e
              | Inr ps \<Rightarrow> Inr (py_sum A ps)))"

text \<open>The extra monthly amount the shortfall block reports.\<close>

definition needed_extra :: "arith \<Rightarrow> pyfloat \<Rightarrow> pyfloat \<Rightarrow> int \<Rightarrow> pyfloat \<Rightarrow> py_error + pyfloat" where
  "needed_extra A goal projected years expected_return =
     (case future_factor A years expected_return of
        Inl e \<Rightarrow> Inl e
      | Inr ff \<Rightarrow> fdiv A (fsub A goal projected) ff)"

definition shortfall_block :: "arith \<Rightarrow> pyfloat \<Rightarrow> pyfloat \<Rightarrow> int \<Rightarrow> pyfloat \<Rightarrow> ui_event list" where
  "shortfall_block A goal projected years expected_return =
     Error_shortfall (fsub A goal projected) #
     (case needed_extra A goal projected years expected_return of
        Inl e \<Rightarrow> [Raised e]
      | Inr extra \<Rightarrow> [Info_needed_extra extra])"

definition calculate_savings_projection ::
  "arith \<Rightarrow> int \<Rightarrow> int \<Rightarrow> pyfloat \<Rightarrow> pyfloat \<Rightarrow> pyfloat \<Rightarrow> pyfloat \<Rightarrow> ui_event list" where
  "calculate_savings_projection A age retire_age current_savings monthly_contribution
       expected_return goal =
     (let years = retire_age - age
      in if years \<le> 0 then [Error_horizon]
         else
           Call_project_savings current_savings monthly_contribution years expected_return #
           (case project_savings A current_savings monthly_contribution years expected_return of
              Inl e \<Rightarrow> [Raised e]
            | Inr projected \<Rightarrow>
                Subheader_projected retire_age projected #
                (if flt projected goal
                 then shortfall_block A goal projected years expected_return
                 else [Success_on_track])))"

subsection \<open>The specification's tables and formula\<close>

text \<open>The allocation table as the specification words it: the age brackets
  under 30, 30--39, 40--49, 50--59, 60 and over, and the three risk tiers.\<close>

datatype risk_tolerance = Low | Medium | High

fun risk_name :: "risk_tolerance \<Rightarrow> string" where
  "risk_name Low = ''Low''"
| "risk_name Medium = ''Medium''"
| "risk_name High = ''High''"

definition spec_base_stock :: "int \<Rightarrow> int" where
  "spec_base_stock age =
     (if age < 30 then 90
      else if age \<in> {30..39} then 85
      else if age \<in> {40..49} then 75
      else if age \<in> {50..59} then 65
      else 50)"

fun spec_stock :: "risk_tolerance \<Rightarrow> int \<Rightarrow> int" where
  "spec_stock High base = min 95 (base + 10)"
| "spec_stock Low base = max 30 (base - 20)"
| "spec_stock Medium base = base"

text \<open>The projection as the specification words it, in exact arithmetic: with
  \<open>r = annualReturnPercent / 100 / 12\<close> and \<open>months = years * 12\<close>, the lump sum
  \<open>currentSavings * (1 + r)^months\<close> plus the sum over \<open>m = 1, ..., months\<close> of
  \<open>monthlyContribution * (1 + r)^(months - m + 1)\<close>.\<close>

definition spec_projection :: "rat \<Rightarrow> rat \<Rightarrow> int \<Rightarrow> rat \<Rightarrow> rat" where
  "spec_projection current_savings monthly_contribution years annual_return =
     (let r = annual_return / 100 / 12; months = years * 12
      in current_savings * power_int (1 + r) months
         + (\<Sum>m = 1..months. monthly_contribution * power_int (1 + r) (months - m + 1)))"

subsection \<open>Properties of a platform\<close>

text \<open>\<open>is_float A x\<close>: \<open>x\<close> is a finite number of the format, that is, rounding leaves it
  alone. The values the program receives from its input fields are such numbers.\<close>

definition is_float :: "arith \<Rightarrow> rat \<Rightarrow> bool" where
  "is_float A x \<longleftrightarrow> rnd A x = Fin x"

text \<open>The two cases in which \<open>math.pow\<close> is exact by the C standard: \<open>pow(x, 0) = 1\<close> for
  every \<open>x\<close>, NaN and the infinities included, and \<open>pow(1, k) = 1\<close> for every exponent
  that can be converted to a float.\<close>

definition pow_exact_cases :: "arith \<Rightarrow> bool" where
  "pow_exact_cases A \<longleftrightarrow>
     (\<forall>x. py_pow A x 0 = Inr (Fin 1))
     \<and> (\<forall>k y. rnd A (of_int k) = Fin y \<longrightarrow> py_pow A (Fin 1) k = Inr (Fin 1))"

text \<open>\<open>exact_sums A s m n\<close>: the sums \<open>s + k * m\<close> for \<open>k = 0, ..., n\<close> are numbers of the
  format, so that adding \<open>m\<close> to \<open>s\<close> up to \<open>n\<close> times is never rounded.\<close>

definition exact_sums :: "arith \<Rightarrow> rat \<Rightarrow> rat \<Rightarrow> int \<Rightarrow> bool" where
  "exact_sums A s m n \<longleftrightarrow> (\<forall>k\<in>{0..n}. is_float A (s + of_int k * m))"

text \<open>Python's \<open>x <= y\<close> on floats.\<close>

fun fle :: "pyfloat \<Rightarrow> pyfloat \<Rightarrow> bool" where
  "fle (Fin x) (Fin y) = (x \<le> y)"
| "fle NaN y = False"
| "fle x NaN = False"
| "fle NInf y = True"
| "fle x PInf = True"
| "fle PInf y = False"
| "fle x NInf = False"

text \<open>The unit roundoff of binary64, and the numbers that are zero or at least \<open>2^-1022\<close>,
  the smallest positive normal number: from there on a rounding changes a number by at
  most the unit roundoff of it, below (in the subnormal range) it can change it by more.
  \<open>nonneg_normal\<close> is the same for a float that may be the positive infinity.\<close>

definition u64 :: rat where
  "u64 = 1 / 2 ^ 53"

definition normal_or_zero :: "rat \<Rightarrow> bool" where
  "normal_or_zero x \<longleftrightarrow> x = 0 \<or> power_int 2 (- 1022) \<le> x"

fun nonneg_normal :: "pyfloat \<Rightarrow> bool" where
  "nonneg_normal (Fin x) = normal_or_zero x"
| "nonneg_normal PInf = True"
| "nonneg_normal v = False"

text \<open>A faithful \<open>pow\<close>, as a C library with an error below one unit in the last place
  has it: for a base \<open>b \<ge> 1\<close> of the format and an integer exponent \<open>k \<ge> 0\<close> the result is
  a number of the format next to the exact power (no number of the format lies strictly
  between the two), and the power is below \<open>2^1024\<close>; or the result is the infinity, and
  then the power is above every number of the format. (\<open>math.pow\<close> turns that infinity
  into \<open>OverflowError\<close>.) Nothing is assumed on how \<open>pow\<close> chooses between the two
  neighbours of a power that is not a number of the format.\<close>

definition pow_faithful :: "arith \<Rightarrow> bool" where
  "pow_faithful A \<longleftrightarrow>
     (\<forall>b k. is_float A b \<and> 1 \<le> b \<and> 0 \<le> k \<longrightarrow>
        (case pw A b (of_int k) of
           Fin p \<Rightarrow>
             is_float A p \<and> power_int b k < 2 ^ 1024
             \<and> (\<forall>f. is_float A f \<longrightarrow> (f \<le> power_int b k \<longrightarrow> f \<le> p) \<and> (power_int b k \<le> f \<longrightarrow> p \<le> f))
         | PInf \<Rightarrow> (\<forall>f. is_float A f \<longrightarrow> f < power_int b k)
         | other \<Rightarrow> False))"

section \<open>The recommenders\<close>

text \<open>C4. For every age (in particular 18 to 100) and every risk tier,
  \<open>recommend_allocation\<close> returns the stock percentage of the specification's table:
  the base of the age bracket (under 30: 90, 30--39: 85, 40--49: 75, 50--59: 65,
  60 and over: 50), raised to \<open>min 95 (base + 10)\<close> for High, lowered to
  \<open>max 30 (base - 20)\<close> for Low, unchanged for Medium; the bond percentage is 100 minus
  the stock percentage.\<close>

theorem recommend_allocation_table:
  "recommend_allocation age (risk_name t) =
     (spec_stock t (spec_base_stock age), 100 - spec_stock t (spec_base_stock age))"
  by (cases t) (simp_all add: recommend_allocation_def spec_base_stock_def Let_def)

text \<open>C5. For every age and every risk string, the two percentages returned by
  \<open>recommend_allocation\<close> add up to 100 and the stock percentage lies between 30 and 95.\<close>

theorem recommend_allocation_invariant:
  "fst (recommend_allocation age risk) + snd (recommend_allocation age risk) = 100
   \<and> 30 \<le> fst (recommend_allocation age risk)
   \<and> fst (recommend_allocation age risk) \<le> 95"
  by (simp add: recommend_allocation_def Let_def)

text \<open>C6. First match wins in \<open>recommend_account\<close>: employed with access to a 401(k)
  gets the employer-match advice whatever the income is (absent, below or above 145000),
  self-employed gets the self-employed advice whatever the income is, and these advices
  are not the texts of the later, income-based rules.\<close>

theorem recommend_account_first_match:
  "recommend_account ''Employed'' True income = account_401k
   \<and> recommend_account ''Self-Employed'' has_401k income = account_self_employed
   \<and> account_401k \<noteq> account_self_employed
   \<and> account_401k \<noteq> account_roth
   \<and> account_401k \<noteq> account_traditional
   \<and> account_self_employed \<noteq> account_roth
   \<and> account_self_employed \<noteq> account_traditional"
  by (simp add: recommend_account_def account_401k_def account_self_employed_def
        account_roth_def account_traditional_def)

text \<open>C7. The plan is generated with the income the input line supplies (line 73): the
  number typed into the field, with 0 replaced by \<open>None\<close>. For an absent income, and so
  for a typed 0, \<open>contribution_guidance\<close> returns the generic text, not a computed range,
  and it returns: no exception is raised.\<close>

theorem contribution_guidance_unknown_income:
  "contribution_guidance A None = Inr guidance_generic
   \<and> contribution_guidance A (income_input 0) = Inr guidance_generic"
  by (simp add: contribution_guidance_def income_input_def)

section \<open>The horizon check\<close>

text \<open>C9. When the retirement age is not above the current age, a press of the button
  reports the horizon error and does nothing else: \<open>project_savings\<close> is not called and
  the shortfall block is not run.\<close>

theorem invalid_horizon_rejected:
  "retire_age \<le> age \<Longrightarrow>
   calculate_savings_projection A age retire_age current_savings monthly_contribution
     expected_return goal = [Error_horizon]"
  by (simp add: calculate_savings_projection_def)

theorem invalid_horizon_rejected_witness:
  "(39::int) \<le> 40
   \<and> calculate_savings_projection (binary64 False) 40 39 (Fin 10000) (Fin 500) (Fin 6)
       (Fin 1000000) = [Error_horizon]"
  using invalid_horizon_rejected
    [of 39 40 "binary64 False" "Fin 10000" "Fin 500" "Fin 6" "Fin 1000000"] by simp

section \<open>The rounding of binary64\<close>

text \<open>\<open>round_to_grid\<close> is monotone and idempotent, it leaves every \<open>m * 2^k\<close> with
  \<open>0 < m < 2^53\<close> and \<open>k \<ge> -1074\<close> alone, and from \<open>2^-1022\<close> on it changes a number by at most
  \<open>2^-53\<close> of it.\<close>

lemma p2_pos [simp]: "0 < power_int (2::rat) e"
  by (simp add: zero_less_power_int)

lemma p2_suc: "power_int (2::rat) (e + 1) = 2 * power_int 2 e"
  by (simp add: power_int_add)

lemma p2_mono: "a \<le> b \<Longrightarrow> power_int (2::rat) a \<le> power_int 2 b"
  by (simp add: power_int_increasing)

lemma p2_strict_mono: "a < b \<Longrightarrow> power_int (2::rat) a < power_int 2 b"
  by (simp add: power_int_strict_increasing)

lemma bitlen_rat_bounds:
  assumes "0 < p"
  shows "power_int (2::rat) (bitlen p - 1) \<le> of_int p" and "(of_int p :: rat) < power_int 2 (bitlen p)"
proof -
  from assms have b1: "1 \<le> bitlen p"
    by (metis bitlen_eq_zero_iff bitlen_nonneg less_le linorder_not_less zless_imp_add1_zle zero_less_one add_0)
  from bitlen_bounds [OF assms] have lo: "2 ^ nat (bitlen p - 1) \<le> p" and hi: "p < 2 ^ nat (bitlen p)"
    by simp_all
  have "power_int (2::rat) (bitlen p - 1) = of_int (2 ^ nat (bitlen p - 1))"
    using b1 by (simp add: power_int_def)
  also have "\<dots> \<le> of_int p" using lo by (simp only: of_int_le_iff)
  finally show "power_int (2::rat) (bitlen p - 1) \<le> of_int p" .
  have "(of_int p :: rat) < of_int (2 ^ nat (bitlen p))" using hi by (simp only: of_int_less_iff)
  also have "\<dots> = power_int 2 (bitlen p)" using b1 by (simp add: power_int_def)
  finally show "(of_int p :: rat) < power_int 2 (bitlen p)" .
qed

lemma ilog2_bounds:
  assumes "0 < x"
  shows "power_int 2 (ilog2 x) \<le> x" and "x < power_int 2 (ilog2 x + 1)"
proof -
  obtain p q where pq: "quotient_of x = (p, q)" by (cases "quotient_of x")
  then have q: "0 < q" and x: "x = of_int p / of_int q"
    by (simp_all add: quotient_of_denom_pos quotient_of_div)
  with assms have p: "0 < p" by (simp add: zero_less_divide_iff)
  define d where "d = bitlen p - bitlen q"
  note P = bitlen_rat_bounds [OF p] and Q = bitlen_rat_bounds [OF q]
  have qpos: "(0::rat) < of_int q" using q by simp
  have "x < power_int 2 (bitlen p) / power_int 2 (bitlen q - 1)"
    unfolding x using P(2) Q(1) qpos p by (intro frac_less) simp_all
  also have "\<dots> = power_int 2 (d + 1)"
    by (simp add: d_def power_int_diff [symmetric] algebra_simps)
  finally have up: "x < power_int 2 (d + 1)" .
  have "power_int (2::rat) (d - 1) = power_int 2 (bitlen p - 1) / power_int 2 (bitlen q)"
    by (simp add: d_def power_int_diff [symmetric] algebra_simps)
  also have "\<dots> \<le> x"
    unfolding x using P(1) Q(2) qpos p by (intro frac_le) simp_all
  finally have lo: "power_int 2 (d - 1) \<le> x" .
  have e: "ilog2 x = (if power_int 2 d \<le> x then d else d - 1)"
    by (simp add: ilog2_def pq d_def Let_def)
  show "power_int 2 (ilog2 x) \<le> x" using lo by (simp add: e)
  show "x < power_int 2 (ilog2 x + 1)" using up by (auto simp add: e not_le)
qed

lemma ilog2_unique:
  assumes "power_int 2 e \<le> x" and "x < power_int 2 (e + 1)"
  shows "ilog2 x = e"
proof -
  have "0 < x" using assms(1) p2_pos [of e] by linarith
  note B = ilog2_bounds [OF this]
  have "\<not> ilog2 x < e"
  proof
    assume "ilog2 x < e"
    then have "power_int (2::rat) (ilog2 x + 1) \<le> power_int 2 e" by (intro p2_mono) simp
    with B(2) assms(1) show False by linarith
  qed
  moreover have "\<not> e < ilog2 x"
  proof
    assume "e < ilog2 x"
    then have "power_int (2::rat) (e + 1) \<le> power_int 2 (ilog2 x)" by (intro p2_mono) simp
    with B(1) assms(2) show False by linarith
  qed
  ultimately show ?thesis by simp
qed

lemma ilog2_mono: "0 < x \<Longrightarrow> x \<le> y \<Longrightarrow> ilog2 x \<le> ilog2 y"
proof (rule ccontr)
  assume x: "0 < x" and xy: "x \<le> y" and "\<not> ilog2 x \<le> ilog2 y"
  then have "power_int (2::rat) (ilog2 y + 1) \<le> power_int 2 (ilog2 x)" by (intro p2_mono) simp
  with ilog2_bounds(1) [OF x] ilog2_bounds(2) [of y] x xy show False by linarith
qed


lemma rhe_of_int [simp]: "round_half_even (of_int n) = n"
  by (simp add: round_half_even_def)

lemma rhe_lower: "of_int (round_half_even x) \<ge> x - 1 / 2"
  unfolding round_half_even_def Let_def by (auto; linarith)

lemma rhe_upper: "of_int (round_half_even x) \<le> x + 1 / 2"
  unfolding round_half_even_def Let_def by (auto; linarith)

lemma rhe_floor_le: "\<lfloor>x\<rfloor> \<le> round_half_even x"
  by (simp add: round_half_even_def Let_def)

lemma rhe_le_floor1: "round_half_even x \<le> \<lfloor>x\<rfloor> + 1"
  by (simp add: round_half_even_def Let_def)

lemma rhe_mono: "x \<le> y \<Longrightarrow> round_half_even x \<le> round_half_even y"
proof -
  assume xy: "x \<le> y"
  then have fl: "\<lfloor>x\<rfloor> \<le> \<lfloor>y\<rfloor>" by (rule floor_mono)
  show ?thesis
  proof (cases "\<lfloor>x\<rfloor> = \<lfloor>y\<rfloor>")
    case True
    with xy show ?thesis by (auto simp add: round_half_even_def Let_def)
  next
    case False
    with fl have "\<lfloor>x\<rfloor> + 1 \<le> \<lfloor>y\<rfloor>" by simp
    with rhe_le_floor1 [of x] rhe_floor_le [of y] show ?thesis by linarith
  qed
qed

lemma rhe_ge_int: "of_int n \<le> x \<Longrightarrow> n \<le> round_half_even x"
  using rhe_mono [of "of_int n" x] by simp

lemma rhe_le_int: "x \<le> of_int n \<Longrightarrow> round_half_even x \<le> n"
  using rhe_mono [of x "of_int n"] by simp



lemma rhe_nonneg: "0 \<le> x \<Longrightarrow> 0 \<le> round_half_even x"
  using rhe_ge_int [of 0 x] by simp

lemma expo_ge: "ilog2 x \<le> expo x" and expo_min: "- 1022 \<le> expo x"
  by (simp_all add: expo_def)

lemma expo_upper: "0 < x \<Longrightarrow> x < power_int 2 (expo x + 1)"
proof -
  assume x: "0 < x"
  have "power_int (2::rat) (ilog2 x + 1) \<le> power_int 2 (expo x + 1)"
    by (intro p2_mono) (simp add: expo_def)
  with ilog2_bounds(2) [OF x] show ?thesis by linarith
qed

lemma expo_normal: "power_int 2 (- 1022) \<le> x \<Longrightarrow> expo x = ilog2 x"
proof -
  assume n: "power_int 2 (- 1022) \<le> x"
  then have x: "0 < x" using p2_pos [of "- 1022"] by linarith
  have "\<not> ilog2 x < - 1022"
  proof
    assume "ilog2 x < - 1022"
    then have "power_int (2::rat) (ilog2 x + 1) \<le> power_int 2 (- 1022)" by (intro p2_mono) simp
    with ilog2_bounds(2) [OF x] n show False by linarith
  qed
  then show ?thesis by (simp add: expo_def)
qed

lemma expo_lower: "power_int 2 (- 1022) \<le> x \<Longrightarrow> power_int 2 (expo x) \<le> x"
proof -
  assume n: "power_int 2 (- 1022) \<le> x"
  then have x: "0 < x" using p2_pos [of "- 1022"] by linarith
  show ?thesis using ilog2_bounds(1) [OF x] by (simp add: expo_normal [OF n])
qed

lemma expo_above_min: "0 < x \<Longrightarrow> - 1022 < expo x \<Longrightarrow> power_int 2 (expo x) \<le> x"
proof -
  assume x: "0 < x" and e: "- 1022 < expo x"
  then have "expo x = ilog2 x" by (simp add: expo_def max_def split: if_splits)
  with ilog2_bounds(1) [OF x] show ?thesis by simp
qed

lemma expo_mono: "0 < x \<Longrightarrow> x \<le> y \<Longrightarrow> expo x \<le> expo y"
  using ilog2_mono [of x y] by (simp add: expo_def max_def)

lemma grid_pos:
  "0 < x \<Longrightarrow>
   round_to_grid x = of_int (round_half_even (x / power_int 2 (expo x - 52))) * power_int 2 (expo x - 52)"
  by (simp add: round_to_grid_def Let_def)

lemma grid_0 [simp]: "round_to_grid 0 = 0"
  by (simp add: round_to_grid_def)

lemma grid_minus: "round_to_grid (- x) = - round_to_grid x"
  by (simp add: round_to_grid_def Let_def sgn_minus)

lemma ulp_eq: "power_int (2::rat) (e - 52) = power_int 2 e / 2 ^ 52"
  by (simp add: power_int_diff)

lemma scaled_aux:
  fixes x E c :: rat
  assumes "0 < E" "0 < c"
  shows "E \<le> x \<Longrightarrow> c \<le> x / (E / c)" and "x < 2 * E \<Longrightarrow> x / (E / c) < 2 * c"
  using assms by (simp_all add: field_simps)

lemma scaled_upper:
  assumes "0 < x"
  shows "x / power_int 2 (expo x - 52) < 2 ^ 53"
proof -
  let ?E = "power_int (2::rat) (expo x)"
  have E: "0 < ?E" by simp
  have hi: "x < 2 * ?E" using expo_upper [OF assms] by (simp add: p2_suc)
  have c: "(0::rat) < 2 ^ 52" by simp
  have t: "(2::rat) * 2 ^ 52 = 2 ^ 53" by simp
  from scaled_aux(2) [OF E c hi] show ?thesis by (simp only: ulp_eq t)
qed

lemma scaled_lower:
  assumes "power_int 2 (expo x) \<le> x"
  shows "2 ^ 52 \<le> x / power_int 2 (expo x - 52)"
proof -
  let ?E = "power_int (2::rat) (expo x)"
  have E: "0 < ?E" by simp
  have c: "(0::rat) < 2 ^ 52" by simp
  from scaled_aux(1) [OF E c assms] show ?thesis by (simp only: ulp_eq)
qed

lemma mantissa_upper:
  assumes "0 < x"
  shows "round_half_even (x / power_int 2 (expo x - 52)) \<le> 2 ^ 53"
proof -
  from scaled_upper [OF assms]
  have "x / power_int 2 (expo x - 52) \<le> of_int (2 ^ 53)" by simp
  then show ?thesis by (rule rhe_le_int)
qed

lemma mantissa_lower:
  assumes "power_int 2 (expo x) \<le> x"
  shows "2 ^ 52 \<le> round_half_even (x / power_int 2 (expo x - 52))"
proof -
  from scaled_lower [OF assms]
  have "of_int (2 ^ 52) \<le> x / power_int 2 (expo x - 52)" by simp
  then show ?thesis by (rule rhe_ge_int)
qed

lemma grid_upper:
  assumes "0 < x"
  shows "round_to_grid x \<le> power_int 2 (expo x + 1)"
proof -
  let ?u = "power_int (2::rat) (expo x - 52)"
  let ?n = "round_half_even (x / ?u)"
  have u: "0 \<le> ?u" by simp
  have b: "(of_int ?n :: rat) \<le> of_int (2 ^ 53)"
    using mantissa_upper [OF assms] by (simp only: of_int_le_iff)
  have "of_int ?n * ?u \<le> of_int (2 ^ 53) * ?u" by (rule mult_right_mono [OF b u])
  also have "\<dots> = power_int 2 (expo x + 1)" by (simp add: ulp_eq p2_suc)
  finally show ?thesis by (simp only: grid_pos [OF assms])
qed

lemma grid_lower:
  assumes "0 < x" and "power_int 2 (expo x) \<le> x"
  shows "power_int 2 (expo x) \<le> round_to_grid x"
proof -
  let ?u = "power_int (2::rat) (expo x - 52)"
  let ?n = "round_half_even (x / ?u)"
  have u: "0 \<le> ?u" by simp
  have a: "(of_int (2 ^ 52) :: rat) \<le> of_int ?n"
    using mantissa_lower [OF assms(2)] by (simp only: of_int_le_iff)
  have "power_int 2 (expo x) = of_int (2 ^ 52) * ?u" by (simp add: ulp_eq)
  also have "\<dots> \<le> of_int ?n * ?u" by (rule mult_right_mono [OF a u])
  finally show ?thesis by (simp only: grid_pos [OF assms(1)])
qed

lemma grid_nonneg: "0 \<le> x \<Longrightarrow> 0 \<le> round_to_grid x"
proof (cases "x = 0")
  case True
  then show ?thesis by simp
next
  case False
  assume "0 \<le> x"
  with False have x: "0 < x" by simp
  have "0 \<le> x / power_int 2 (expo x - 52)" using x by simp
  then have "0 \<le> round_half_even (x / power_int 2 (expo x - 52))" by (rule rhe_nonneg)
  then show ?thesis by (simp add: grid_pos [OF x])
qed

text \<open>The error of the rounding is at most half a unit in the last place; in the
  normal range that is at most \<open>2^-53\<close> of the number.\<close>

lemma grid_error_ulp:
  assumes "0 < x"
  shows "\<bar>round_to_grid x - x\<bar> \<le> power_int 2 (expo x - 52) / 2"
proof -
  let ?u = "power_int (2::rat) (expo x - 52)"
  let ?q = "x / ?u"
  let ?n = "round_half_even ?q"
  have u: "0 < ?u" by simp
  have "\<bar>of_int ?n - ?q\<bar> \<le> 1 / 2"
    using rhe_lower [of ?q] rhe_upper [of ?q] by linarith
  then have "\<bar>of_int ?n - ?q\<bar> * ?u \<le> 1 / 2 * ?u"
    using u by (intro mult_right_mono) simp_all
  moreover have "\<bar>of_int ?n - ?q\<bar> * ?u = \<bar>round_to_grid x - x\<bar>"
  proof -
    have "\<bar>of_int ?n - ?q\<bar> * ?u = \<bar>(of_int ?n - ?q) * ?u\<bar>"
      using u by (simp add: abs_mult)
    also have "(of_int ?n - ?q) * ?u = round_to_grid x - x"
      using u by (simp add: grid_pos [OF assms] algebra_simps)
    finally show ?thesis .
  qed
  ultimately show ?thesis by simp
qed

lemma grid_error:
  assumes "power_int 2 (- 1022) \<le> x"
  shows "\<bar>round_to_grid x - x\<bar> \<le> x / 2 ^ 53"
proof -
  have x: "0 < x" using assms p2_pos [of "- 1022"] by linarith
  have "power_int (2::rat) (expo x - 52) / 2 = power_int 2 (expo x) / 2 ^ 53" by (simp add: ulp_eq)
  moreover have "power_int 2 (expo x) / 2 ^ 53 \<le> x / 2 ^ 53"
    using expo_lower [OF assms] by (simp add: divide_right_mono)
  ultimately show ?thesis using grid_error_ulp [OF x] by linarith
qed

lemma grid_mono_pos:
  assumes "0 < x" and "x \<le> y"
  shows "round_to_grid x \<le> round_to_grid y"
proof -
  have y: "0 < y" using assms by linarith
  from expo_mono [OF assms] have le: "expo x \<le> expo y" .
  show ?thesis
  proof (cases "expo x = expo y")
    case True
    let ?u = "power_int (2::rat) (expo y - 52)"
    have u: "0 \<le> ?u" by simp
    have "x / ?u \<le> y / ?u" using assms(2) u by (rule divide_right_mono)
    then have "round_half_even (x / ?u) \<le> round_half_even (y / ?u)" by (rule rhe_mono)
    then have "(of_int (round_half_even (x / ?u)) :: rat) \<le> of_int (round_half_even (y / ?u))"
      by (simp only: of_int_le_iff)
    then have "of_int (round_half_even (x / ?u)) * ?u \<le> of_int (round_half_even (y / ?u)) * ?u"
      using u by (rule mult_right_mono)
    then show ?thesis by (simp only: grid_pos [OF assms(1)] grid_pos [OF y] True)
  next
    case False
    with le have lt: "expo x + 1 \<le> expo y" by simp
    then have "- 1022 < expo y" using expo_min [of x] by linarith
    from expo_above_min [OF y this] have "power_int 2 (expo y) \<le> y" .
    from grid_lower [OF y this] have "power_int 2 (expo y) \<le> round_to_grid y" .
    moreover have "power_int (2::rat) (expo x + 1) \<le> power_int 2 (expo y)" using lt by (rule p2_mono)
    ultimately show ?thesis using grid_upper [OF assms(1)] by linarith
  qed
qed

lemma grid_mono: "x \<le> y \<Longrightarrow> round_to_grid x \<le> round_to_grid y"
proof -
  assume xy: "x \<le> y"
  consider "0 < x" | "x \<le> 0" "0 \<le> y" | "y < 0" by linarith
  then show ?thesis
  proof cases
    case 1
    then show ?thesis using xy by (rule grid_mono_pos)
  next
    case 2
    have "0 \<le> round_to_grid (- x)" using 2(1) by (intro grid_nonneg) simp
    then have "round_to_grid x \<le> 0" by (simp add: grid_minus)
    with grid_nonneg [OF 2(2)] show ?thesis by linarith
  next
    case 3
    then have "round_to_grid (- y) \<le> round_to_grid (- x)" using xy by (intro grid_mono_pos) simp_all
    then show ?thesis by (simp add: grid_minus)
  qed
qed

text \<open>Every \<open>m * 2^k\<close> with \<open>0 < m < 2^53\<close> and \<open>k \<ge> -1074\<close> is on the grid.\<close>

lemma grid_repr:
  assumes "0 < m" and "m < 2 ^ 53" and "- 1074 \<le> k"
  shows "round_to_grid (of_int m * power_int 2 k) = of_int m * power_int 2 k"
proof -
  let ?x = "of_int m * power_int (2::rat) k"
  let ?e = "expo ?x"
  have x: "0 < ?x" using assms(1) by simp
  have j: "0 \<le> k - ?e + 52"
  proof (cases "- 1022 < ?e")
    case True
    have "(of_int m :: rat) < of_int (2 ^ 53)" using assms(2) by (simp only: of_int_less_iff)
    then have "?x < of_int (2 ^ 53) * power_int 2 k" by (intro mult_strict_right_mono) simp_all
    also have "\<dots> = power_int 2 (53 + k)" by (simp add: power_int_add)
    finally have "power_int 2 ?e < power_int (2::rat) (53 + k)"
      using expo_above_min [OF x True] by linarith
    then have "?e < 53 + k"
      using p2_mono [of "53 + k" ?e] by (cases "?e < 53 + k") simp_all
    then show ?thesis by simp
  next
    case False
    then have "?e = - 1022" using expo_min [of ?x] by linarith
    with assms(3) show ?thesis by simp
  qed
  have "?x / power_int 2 (?e - 52) = of_int m * power_int 2 (k - (?e - 52))"
    by (simp add: power_int_diff)
  also have "power_int (2::rat) (k - (?e - 52)) = of_int (2 ^ nat (k - ?e + 52))"
    using j by (simp add: power_int_def algebra_simps)
  finally have "?x / power_int 2 (?e - 52) = of_int (m * 2 ^ nat (k - ?e + 52))"
    by simp
  then have "round_half_even (?x / power_int 2 (?e - 52)) = m * 2 ^ nat (k - ?e + 52)"
    by (simp only: rhe_of_int)
  then have "round_to_grid ?x = of_int (m * 2 ^ nat (k - ?e + 52)) * power_int 2 (?e - 52)"
    by (simp only: grid_pos [OF x])
  also have "\<dots> = of_int m * (power_int 2 (k - ?e + 52) * power_int 2 (?e - 52))"
    using j by (simp add: power_int_def)
  also have "power_int (2::rat) (k - ?e + 52) * power_int 2 (?e - 52) = power_int 2 k"
    by (simp add: power_int_add [symmetric])
  finally show ?thesis .
qed

lemma grid_idem_pos:
  assumes "0 < x"
  shows "round_to_grid (round_to_grid x) = round_to_grid x"
proof -
  let ?n = "round_half_even (x / power_int 2 (expo x - 52))"
  have r: "round_to_grid x = of_int ?n * power_int 2 (expo x - 52)" by (rule grid_pos [OF assms])
  have k: "- 1074 \<le> expo x - 52" using expo_min [of x] by simp
  have n0: "0 \<le> ?n" using assms by (intro rhe_nonneg) simp
  from mantissa_upper [OF assms] have hi: "?n \<le> 2 ^ 53" .
  consider "?n = 0" | "0 < ?n" "?n < 2 ^ 53" | "?n = 2 ^ 53" using n0 hi by linarith
  then show ?thesis
  proof cases
    case 1
    then show ?thesis by (simp add: r)
  next
    case 2
    from grid_repr [OF 2 k] show ?thesis by (simp only: r)
  next
    case 3
    then have "round_to_grid x = of_int 1 * power_int 2 (expo x + 1)"
      by (simp add: r ulp_eq p2_suc)
    moreover have "round_to_grid (of_int 1 * power_int 2 (expo x + 1)) = of_int 1 * power_int 2 (expo x + 1)"
      using expo_min [of x] by (intro grid_repr) simp_all
    ultimately show ?thesis by simp
  qed
qed

lemma grid_idem: "round_to_grid (round_to_grid x) = round_to_grid x"
proof -
  consider "0 < x" | "x = 0" | "x < 0" by linarith
  then show ?thesis
  proof cases
    case 1
    then show ?thesis by (rule grid_idem_pos)
  next
    case 2
    then show ?thesis by simp
  next
    case 3
    then have "round_to_grid (round_to_grid (- x)) = round_to_grid (- x)" by (intro grid_idem_pos) simp
    then show ?thesis by (simp add: grid_minus)
  qed
qed

lemma grid_p2: "- 1074 \<le> k \<Longrightarrow> round_to_grid (power_int 2 k) = power_int 2 k"
  using grid_repr [of 1 k] by simp

lemma grid_le_p2: "x \<le> power_int 2 k \<Longrightarrow> - 1074 \<le> k \<Longrightarrow> round_to_grid x \<le> power_int 2 k"
  using grid_mono [of x "power_int 2 k"] by (simp add: grid_p2)

lemma grid_ge_p2: "power_int 2 k \<le> x \<Longrightarrow> - 1074 \<le> k \<Longrightarrow> power_int 2 k \<le> round_to_grid x"
  using grid_mono [of "power_int 2 k" x] by (simp add: grid_p2)

lemma p2_nat: "power_int (2::rat) (int n) = 2 ^ n"
  by (simp add: power_int_def)

lemma grid_le_pow2: "x \<le> 2 ^ n \<Longrightarrow> round_to_grid x \<le> 2 ^ n"
  using grid_le_p2 [of x "int n"] by (simp add: p2_nat)

lemma grid_ge_pow2: "2 ^ n \<le> x \<Longrightarrow> 2 ^ n \<le> round_to_grid x"
  using grid_ge_p2 [of "int n" x] by (simp add: p2_nat)

lemma rnd64_Fin: "- (2 ^ 1024) < round_to_grid x \<Longrightarrow> round_to_grid x < 2 ^ 1024 \<Longrightarrow> rnd64 x = Fin (round_to_grid x)"
  by (simp add: rnd64_def Let_def)

lemma rnd64_nonneg_Fin: "0 \<le> x \<Longrightarrow> round_to_grid x < 2 ^ 1024 \<Longrightarrow> rnd64 x = Fin (round_to_grid x)"
proof -
  assume "0 \<le> x" and b: "round_to_grid x < 2 ^ 1024"
  then have "0 \<le> round_to_grid x" by (intro grid_nonneg)
  moreover have "- (2 ^ 1024) < (0::rat)" by simp
  ultimately have "- (2 ^ 1024) < round_to_grid x" by linarith
  then show ?thesis using b by (rule rnd64_Fin)
qed

lemma rnd64_small: "0 \<le> x \<Longrightarrow> x \<le> 2 ^ 1023 \<Longrightarrow> rnd64 x = Fin (round_to_grid x)"
proof -
  assume x: "0 \<le> x" and b: "x \<le> 2 ^ 1023"
  from grid_le_pow2 [OF b] have "round_to_grid x \<le> 2 ^ 1023" .
  moreover have "(2::rat) ^ 1023 < 2 ^ 1024" by simp
  ultimately have "round_to_grid x < 2 ^ 1024" by linarith
  with x show ?thesis by (rule rnd64_nonneg_Fin)
qed

lemma rnd64_nonneg_cases:
  assumes "0 \<le> x"
  shows "rnd64 x = PInf \<and> 2 ^ 1024 \<le> round_to_grid x
         \<or> rnd64 x = Fin (round_to_grid x) \<and> round_to_grid x < 2 ^ 1024"
proof (cases "round_to_grid x < 2 ^ 1024")
  case True
  with rnd64_nonneg_Fin [OF assms True] show ?thesis by simp
next
  case False
  then show ?thesis by (simp add: rnd64_def Let_def)
qed

lemma rnd64_0: "rnd64 0 = Fin 0"
  by (simp add: rnd64_def)

lemma grid_of_int: "\<bar>n\<bar> < 2 ^ 53 \<Longrightarrow> round_to_grid (of_int n) = of_int n"
proof -
  assume a: "\<bar>n\<bar> < 2 ^ 53"
  consider "0 < n" | "n = 0" | "n < 0" by linarith
  then show ?thesis
  proof cases
    case 1
    with a grid_repr [of n 0] show ?thesis by simp
  next
    case 2
    then show ?thesis by simp
  next
    case 3
    with a grid_repr [of "- n" 0] have "round_to_grid (- of_int n) = - of_int n" by simp
    then show ?thesis by (simp add: grid_minus)
  qed
qed

lemma rnd64_of_int: "\<bar>n\<bar> < 2 ^ 53 \<Longrightarrow> rnd64 (of_int n) = Fin (of_int n)"
proof -
  assume a: "\<bar>n\<bar> < 2 ^ 53"
  have "(of_int \<bar>n\<bar> :: rat) < of_int (2 ^ 53)" using a by (simp only: of_int_less_iff)
  then have b: "\<bar>of_int n :: rat\<bar> < 2 ^ 53" by simp
  have "(2::rat) ^ 53 < 2 ^ 1024" by simp
  with b have "- (2 ^ 1024) < (of_int n :: rat)" "(of_int n :: rat) < 2 ^ 1024" by linarith+
  then show ?thesis using rnd64_Fin [of "of_int n"] by (simp add: grid_of_int [OF a])
qed

lemma rnd64_1: "rnd64 1 = Fin 1"
  using rnd64_of_int [of 1] by simp

lemma rnd64_idem: "rnd64 x = Fin y \<Longrightarrow> rnd64 y = Fin y"
  by (auto simp add: rnd64_def Let_def grid_idem split: if_splits)

lemma rnd64_Fin_grid: "rnd64 x = Fin y \<Longrightarrow> y = round_to_grid x"
  by (auto simp add: rnd64_def Let_def split: if_splits)

lemma float_grid: "rnd64 x = Fin x \<Longrightarrow> round_to_grid x = x"
  using rnd64_Fin_grid [of x x] by simp

lemma float_bound: "rnd64 x = Fin x \<Longrightarrow> x < 2 ^ 1024"
  by (auto simp add: rnd64_def Let_def split: if_splits)

lemma float_bound_neg: "rnd64 x = Fin x \<Longrightarrow> - (2 ^ 1024) < x"
  by (auto simp add: rnd64_def Let_def split: if_splits)

text \<open>Below a float, rounding stays finite.\<close>

lemma rnd64_below_float:
  assumes "0 \<le> x" and "x \<le> f" and "rnd64 f = Fin f"
  shows "rnd64 x = Fin (round_to_grid x)"
proof -
  have "round_to_grid x \<le> round_to_grid f" using assms(2) by (rule grid_mono)
  with float_grid [OF assms(3)] float_bound [OF assms(3)] have "round_to_grid x < 2 ^ 1024" by linarith
  with assms(1) show ?thesis by (rule rnd64_nonneg_Fin)
qed

text \<open>The relative error of the rounding, from \<open>2^-1022\<close> on.\<close>

lemma grid_rel:
  assumes "power_int 2 (- 1022) \<le> x"
  shows "(1 - 1 / 2 ^ 53) * x \<le> round_to_grid x" and "round_to_grid x \<le> (1 + 1 / 2 ^ 53) * x"
proof -
  define c where "c = x / 2 ^ 53"
  define g where "g = round_to_grid x"
  have "\<bar>g - x\<bar> \<le> c" unfolding c_def g_def by (rule grid_error [OF assms])
  then have b: "x - c \<le> g" "g \<le> x + c" by linarith+
  have e: "(1 - 1 / 2 ^ 53) * x = x - c" "(1 + 1 / 2 ^ 53) * x = x + c"
    by (simp_all add: c_def algebra_simps)
  show "(1 - 1 / 2 ^ 53) * x \<le> round_to_grid x"
    using b(1) by (simp only: e g_def)
  show "round_to_grid x \<le> (1 + 1 / 2 ^ 53) * x"
    using b(2) by (simp only: e g_def)
qed

text \<open>Every \<open>m * 2^k\<close> with \<open>0 < m < 2^53\<close> and \<open>-1074 \<le> k \<le> 971\<close> is a finite number of
  the format.\<close>

lemma rnd64_repr:
  assumes "0 < m" and "m < 2 ^ 53" and "- 1074 \<le> k" and "k \<le> 971"
  shows "rnd64 (of_int m * power_int 2 k) = Fin (of_int m * power_int 2 k)"
proof -
  let ?x = "of_int m * power_int (2::rat) k"
  have g: "round_to_grid ?x = ?x" by (rule grid_repr [OF assms(1,2,3)])
  have x: "0 \<le> ?x" using assms(1) by simp
  have "(of_int m :: rat) < of_int (2 ^ 53)" using assms(2) by (simp only: of_int_less_iff)
  then have "?x < of_int (2 ^ 53) * power_int 2 k" by (intro mult_strict_right_mono) simp_all
  also have "\<dots> = power_int 2 (53 + k)" by (simp add: power_int_add)
  also have "\<dots> \<le> power_int 2 1024" using assms(4) by (intro p2_mono) simp
  also have "\<dots> = 2 ^ 1024" using p2_nat [of 1024] by simp
  finally have "round_to_grid ?x < 2 ^ 1024" by (simp only: g)
  from rnd64_nonneg_Fin [OF x this] show ?thesis by (simp only: g)
qed

text \<open>Evaluating the rounding at a given number: the exponent and the rounded mantissa
  are supplied, and checked by arithmetic.\<close>

lemma rhe_near: "\<bar>x - of_int n\<bar> < 1 / 2 \<Longrightarrow> round_half_even x = n"
proof -
  assume "\<bar>x - of_int n\<bar> < 1 / 2"
  then have a: "x < of_int n + 1 / 2" "of_int n - 1 / 2 < x" by linarith+
  have "(of_int (round_half_even x) :: rat) < of_int n + 1"
    using rhe_upper [of x] a(1) by linarith
  moreover have "(of_int n :: rat) - 1 < of_int (round_half_even x)"
    using rhe_lower [of x] a(2) by linarith
  ultimately have "(of_int (round_half_even x) :: rat) < of_int (n + 1)"
    "(of_int (n - 1) :: rat) < of_int (round_half_even x)" by simp_all
  then have "round_half_even x < n + 1" "n - 1 < round_half_even x"
    by (simp_all only: of_int_less_iff)
  then show ?thesis by linarith
qed

lemma rhe_tie_even: "x = of_int n + 1 / 2 \<Longrightarrow> even n \<Longrightarrow> round_half_even x = n"
proof -
  assume x: "x = of_int n + 1 / 2" and e: "even n"
  have "\<lfloor>x\<rfloor> = n" unfolding x by (simp add: floor_unique)
  with x e show ?thesis by (simp add: round_half_even_def Let_def)
qed

lemma rhe_tie_odd: "x = of_int n - 1 / 2 \<Longrightarrow> even n \<Longrightarrow> round_half_even x = n"
proof -
  assume x: "x = of_int n - 1 / 2" and e: "even n"
  have f: "\<lfloor>x\<rfloor> = n - 1" unfolding x by (simp add: floor_unique)
  have "x - of_int (n - 1) = 1 / 2" unfolding x by simp
  with f e show ?thesis by (simp add: round_half_even_def Let_def)
qed

lemma expo_eval: "power_int 2 e \<le> x \<Longrightarrow> x < power_int 2 (e + 1) \<Longrightarrow> - 1022 \<le> e \<Longrightarrow> expo x = e"
  by (simp add: expo_def ilog2_unique)

lemma expo_subnormal: "0 < x \<Longrightarrow> x < power_int 2 (- 1022) \<Longrightarrow> expo x = - 1022"
proof -
  assume x: "0 < x" and b: "x < power_int 2 (- 1022)"
  have "\<not> - 1022 \<le> ilog2 x"
  proof
    assume "- 1022 \<le> ilog2 x"
    then have "power_int (2::rat) (- 1022) \<le> power_int 2 (ilog2 x)" by (rule p2_mono)
    with ilog2_bounds(1) [OF x] b show False by linarith
  qed
  then show ?thesis by (simp add: expo_def)
qed

lemma grid_eval:
  assumes "power_int 2 e \<le> x" and "x < power_int 2 (e + 1)" and "- 1022 \<le> e"
    and "round_half_even (x / power_int 2 (e - 52)) = n"
  shows "round_to_grid x = of_int n * power_int 2 (e - 52)"
proof -
  have x: "0 < x" using assms(1) p2_pos [of e] by linarith
  show ?thesis by (simp only: grid_pos [OF x] expo_eval [OF assms(1,2,3)] assms(4))
qed

lemma grid_eval_subnormal:
  assumes "0 < x" and "x < power_int 2 (- 1022)"
    and "round_half_even (x / power_int 2 (- 1074)) = n"
  shows "round_to_grid x = of_int n * power_int 2 (- 1074)"
proof -
  have "expo x - 52 = - 1074" using expo_subnormal [OF assms(1,2)] by simp
  then show ?thesis by (simp only: grid_pos [OF assms(1)] assms(3))
qed

lemma rnd64_eval:
  assumes "power_int 2 e \<le> x" and "x < power_int 2 (e + 1)" and "- 1022 \<le> e" and "e \<le> 1022"
    and "round_half_even (x / power_int 2 (e - 52)) = n"
  shows "rnd64 x = Fin (of_int n * power_int 2 (e - 52))"
proof -
  have x: "0 < x" using assms(1) p2_pos [of e] by linarith
  have "round_to_grid x \<le> power_int 2 (e + 1)"
    using grid_upper [OF x] by (simp only: expo_eval [OF assms(1,2,3)])
  also have "\<dots> \<le> power_int 2 1023" using assms(4) by (intro p2_mono) simp
  also have "\<dots> = 2 ^ 1023" using p2_nat [of 1023] by simp
  also have "\<dots> < (2::rat) ^ 1024" by simp
  finally have "round_to_grid x < 2 ^ 1024" .
  with x have "rnd64 x = Fin (round_to_grid x)" by (intro rnd64_nonneg_Fin) simp_all
  then show ?thesis by (simp only: grid_eval [OF assms(1,2,3,5)])
qed

section \<open>The savings projector\<close>


lemma ps_loop_step:
  "m \<le> months \<Longrightarrow> py_pow A (fadd A (Fin 1) r) (months - m + 1) = Inr p \<Longrightarrow>
   ps_loop A mc r months m fv = ps_loop A mc r months (m + 1) (fadd A fv (fmul A mc p))"
  by (subst ps_loop.simps) simp

lemma ps_loop_raise:
  "m \<le> months \<Longrightarrow> py_pow A (fadd A (Fin 1) r) (months - m + 1) = Inl e \<Longrightarrow>
   ps_loop A mc r months m fv = Inl e"
  by (subst ps_loop.simps) simp


lemma binary64_simps [simp]:
  "rnd (binary64 c) = rnd64" "pw (binary64 c) = pw64" "compensated (binary64 c) = c"
  by (simp_all add: binary64_def)

lemma pw64_zero: "pw64 a 0 = Fin 1"
  by (simp add: pw64_def rnd64_1)

lemma pw64_one: "pw64 1 y = Fin 1"
  by (simp add: pw64_def rnd64_1)

lemma pow_exact_cases_binary64: "pow_exact_cases (binary64 c)"
  unfolding pow_exact_cases_def
proof (intro conjI allI impI)
  fix x
  show "py_pow (binary64 c) x 0 = Inr (Fin 1)"
    by (cases x) (simp_all add: py_pow_def rnd64_0 pw64_zero)
next
  fix k y
  assume "rnd (binary64 c) (of_int k) = Fin y"
  then show "py_pow (binary64 c) (Fin 1) k = Inr (Fin 1)"
    by (simp add: py_pow_def pw64_one)
qed


lemma is_float_tenth: "is_float (binary64 c) (3602879701896397 / 36028797018963968)"
proof -
  have "rnd64 (of_int 3602879701896397 * power_int 2 (- 55)) = Fin (of_int 3602879701896397 * power_int 2 (- 55))"
    by (rule rnd64_repr) simp_all
  moreover have "of_int 3602879701896397 * power_int (2::rat) (- 55) = 3602879701896397 / 36028797018963968"
    by (simp add: power_int_minus)
  ultimately show ?thesis by (simp add: is_float_def)
qed


text \<open>When the calls of \<open>pow\<close> return, the loop adds the terms for \<open>m, m + 1, ..., months\<close>
  to \<open>fv\<close>, in this order, with float additions.\<close>

lemma ps_loop_foldl:
  assumes "\<And>k. 1 \<le> k \<Longrightarrow> k \<le> months \<Longrightarrow> py_pow A (fadd A (Fin 1) r) k = Inr (P k)"
    and "1 \<le> m"
  shows "ps_loop A mc r months m fv =
           Inr (foldl (fadd A) fv (map (\<lambda>j. fmul A mc (P (months - j + 1))) [m..months]))"
  using assms
proof (induction A mc r months m fv rule: ps_loop.induct)
  case (1 A mc r months m fv)
  show ?case
  proof (cases "m < months + 1")
    case True
    then have u: "[m..months] = m # [m + 1..months]" by (simp add: upto_rec1)
    have p: "py_pow A (fadd A (Fin 1) r) (months - m + 1) = Inr (P (months - m + 1))"
      using True "1.prems"(2) by (intro "1.prems"(1)) simp_all
    have "ps_loop A mc r months (m + 1) (fadd A fv (fmul A mc (P (months - m + 1)))) =
            Inr (foldl (fadd A) (fadd A fv (fmul A mc (P (months - m + 1))))
                   (map (\<lambda>j. fmul A mc (P (months - j + 1))) [m + 1..months]))"
      using True p "1.prems" by (intro "1.IH") simp_all
    with True p u show ?thesis by (simp add: ps_loop.simps [of A mc r months m fv])
  next
    case False
    then show ?thesis by (simp add: ps_loop.simps [of A mc r months m fv])
  qed
qed

lemma project_savings_foldl:
  assumes "monthly_rate A annual_return = Inr r"
    and "\<And>k. 0 \<le> k \<Longrightarrow> k \<le> years * 12 \<Longrightarrow> py_pow A (fadd A (Fin 1) r) k = Inr (P k)"
    and "0 \<le> years"
  shows "project_savings A current_savings monthly_contribution years annual_return =
           Inr (foldl (fadd A) (fmul A current_savings (P (years * 12)))
                  (map (\<lambda>j. fmul A monthly_contribution (P (years * 12 - j + 1))) [1..years * 12]))"
proof -
  have "py_pow A (fadd A (Fin 1) r) (years * 12) = Inr (P (years * 12))"
    using assms(3) by (intro assms(2)) simp_all
  moreover have "ps_loop A monthly_contribution r (years * 12) 1 fv =
      Inr (foldl (fadd A) fv
             (map (\<lambda>j. fmul A monthly_contribution (P (years * 12 - j + 1))) [1..years * 12]))" for fv
    by (rule ps_loop_foldl) (simp_all add: assms(2))
  ultimately show ?thesis by (simp add: project_savings_def assms(1) Let_def)
qed

section \<open>A zero return\<close>

text \<open>With \<open>annual_return = 0\<close> the rate is 0, every power is 1, and the function adds
  \<open>monthly_contribution\<close> to \<open>current_savings\<close> once per month, rounding each time.\<close>

lemma map_const_upto: "0 \<le> n \<Longrightarrow> map (\<lambda>k. c) [1..n] = replicate (nat n) c"
  by (simp add: map_replicate_const)

lemma project_savings_zero_rate_foldl:
  assumes "rnd A = rnd64" and "pow_exact_cases A" and "0 \<le> years" and "years * 12 < 2 ^ 53"
    and "is_float A current_savings" and "is_float A monthly_contribution"
  shows "project_savings A (Fin current_savings) (Fin monthly_contribution) years (Fin 0)
           = Inr (foldl (fadd A) (Fin current_savings)
                    (replicate (nat (years * 12)) (Fin monthly_contribution)))"
proof -
  have r0: "monthly_rate A (Fin 0) = Inr (Fin 0)"
    by (simp add: monthly_rate_def assms(1) rnd64_0)
  have b1: "fadd A (Fin 1) (Fin 0) = Fin 1"
    by (simp add: assms(1) rnd64_1)
  have p1: "py_pow A (fadd A (Fin 1) (Fin 0)) k = Inr (Fin 1)" if "0 \<le> k" "k \<le> years * 12" for k
  proof -
    have "\<bar>k\<bar> < 2 ^ 53" using that assms(4) by simp
    then have "rnd A (of_int k) = Fin (of_int k)" by (simp add: assms(1) rnd64_of_int)
    with assms(2) have "py_pow A (Fin 1) k = Inr (Fin 1)" by (auto simp add: pow_exact_cases_def)
    then show ?thesis by (simp only: b1)
  qed
  have s: "fmul A (Fin current_savings) (Fin 1) = Fin current_savings"
    using assms(5) by (simp add: is_float_def)
  have m: "fmul A (Fin monthly_contribution) (Fin 1) = Fin monthly_contribution"
    using assms(6) by (simp add: is_float_def)
  have "project_savings A (Fin current_savings) (Fin monthly_contribution) years (Fin 0) =
           Inr (foldl (fadd A) (fmul A (Fin current_savings) (Fin 1))
                  (map (\<lambda>j. fmul A (Fin monthly_contribution) (Fin 1)) [1..years * 12]))"
    by (rule project_savings_foldl [where P = "\<lambda>k. Fin 1", OF r0 _ assms(3)]) (rule p1)
  then show ?thesis
    using assms(3) by (simp only: s m map_const_upto)
qed

lemma foldl_fadd_replicate:
  "\<forall>k\<in>{0..int j + int n}. is_float A (S + of_int k * M) \<Longrightarrow>
   foldl (fadd A) (Fin (S + of_int (int j) * M)) (replicate n (Fin M))
     = Fin (S + of_int (int j + int n) * M)"
proof (induction n arbitrary: j)
  case 0
  then show ?case by simp
next
  case (Suc n)
  have "int (Suc j) \<in> {0..int j + int (Suc n)}" by simp
  from bspec [OF Suc.prems this]
  have "is_float A (S + of_int (int (Suc j)) * M)" .
  then have step: "fadd A (Fin (S + of_int (int j) * M)) (Fin M) = Fin (S + of_int (int (Suc j)) * M)"
    by (simp add: is_float_def algebra_simps)
  have "foldl (fadd A) (Fin (S + of_int (int (Suc j)) * M)) (replicate n (Fin M))
          = Fin (S + of_int (int (Suc j) + int n) * M)"
    by (rule Suc.IH) (use Suc.prems in simp)
  with step show ?case by simp
qed

lemma zero_return_exact_sums:
  assumes "rnd A = rnd64" and "pow_exact_cases A"
    and "0 < years" and "years * 12 < 2 ^ 53"
    and "is_float A monthly_contribution"
    and "exact_sums A current_savings monthly_contribution (years * 12)"
  shows "project_savings A (Fin current_savings) (Fin monthly_contribution) years (Fin 0)
           = Inr (Fin (current_savings + monthly_contribution * of_int years * 12))"
proof -
  from assms(6)
  have e: "\<forall>k\<in>{0..years * 12}. is_float A (current_savings + of_int k * monthly_contribution)"
    by (simp add: exact_sums_def)
  have "(0::int) \<in> {0..years * 12}" using assms(3) by simp
  from bspec [OF e this] have s: "is_float A current_savings" by simp
  have y: "0 \<le> years" using assms(3) by simp
  have "foldl (fadd A) (Fin (current_savings + of_int (int 0) * monthly_contribution))
              (replicate (nat (years * 12)) (Fin monthly_contribution))
        = Fin (current_savings + of_int (int 0 + int (nat (years * 12))) * monthly_contribution)"
    by (rule foldl_fadd_replicate) (use assms(3) e in simp)
  also have "current_savings + of_int (int 0 + int (nat (years * 12))) * monthly_contribution
           = current_savings + monthly_contribution * of_int years * 12"
    using assms(3) by simp
  finally show ?thesis
    using project_savings_zero_rate_foldl [OF assms(1,2) y assms(4) s assms(5)] by simp
qed

lemma is_float_binary64_of_int: "\<bar>n\<bar> < 2 ^ 53 \<Longrightarrow> is_float (binary64 c) (of_int n)"
  by (simp add: is_float_def rnd64_of_int)

text \<open>C3, as the program has it. On a platform with binary64 rounding on which
  \<open>pow(x, 0) = 1\<close> and \<open>pow(1, k) = 1\<close>, for a horizon \<open>years > 0\<close> of fewer than \<open>2^53\<close>
  months: with a zero return, \<open>project_savings\<close> returns exactly
  \<open>current_savings + monthly_contribution * years * 12\<close> whenever the contribution and
  every partial sum \<open>current_savings + k * monthly_contribution\<close>, \<open>k = 0, ..., 12 * years\<close>,
  is a finite number of the format.\<close>

theorem project_savings_zero_return:
  assumes "rnd A = rnd64" and "pow_exact_cases A"
    and "0 < years" and "years * 12 < 2 ^ 53"
    and "is_float A monthly_contribution"
    and "exact_sums A current_savings monthly_contribution (years * 12)"
  shows "project_savings A (Fin current_savings) (Fin monthly_contribution) years (Fin 0)
           = Inr (Fin (current_savings + monthly_contribution * of_int years * 12))"
  by (rule zero_return_exact_sums [OF assms])

lemma exact_sums_whole:
  assumes "0 \<le> s" and "0 \<le> m" and "s + n * m < 2 ^ 53"
  shows "exact_sums (binary64 c) (of_int s) (of_int m) n"
  unfolding exact_sums_def
proof
  fix k :: int
  assume "k \<in> {0..n}"
  then have k: "0 \<le> k" "k \<le> n" by simp_all
  have "k * m \<le> n * m" using k(2) assms(2) by (rule mult_right_mono)
  moreover have "0 \<le> k * m" using k(1) assms(2) by simp
  ultimately have "\<bar>s + k * m\<bar> < 2 ^ 53" using assms(1,3) by linarith
  from is_float_binary64_of_int [OF this]
  show "is_float (binary64 c) (of_int s + of_int k * of_int m)" by simp
qed

theorem project_savings_zero_return_witness:
  "rnd (binary64 False) = rnd64 \<and> pow_exact_cases (binary64 False)
   \<and> (0::int) < 30 \<and> (30::int) * 12 < 2 ^ 53
   \<and> is_float (binary64 False) 500
   \<and> exact_sums (binary64 False) 10000 500 (30 * 12)
   \<and> project_savings (binary64 False) (Fin 10000) (Fin 500) 30 (Fin 0)
        = Inr (Fin (10000 + 500 * of_int 30 * 12))"
proof -
  have r: "rnd (binary64 False) = rnd64" by simp
  have y: "(0::int) < 30" "(30::int) * 12 < 2 ^ 53" by simp_all
  have m: "is_float (binary64 False) 500"
    using is_float_binary64_of_int [of 500] by simp
  have s: "exact_sums (binary64 False) 10000 500 (30 * 12)"
    using exact_sums_whole [of 10000 500 "30 * 12" False] by simp
  note t = project_savings_zero_return [OF r pow_exact_cases_binary64 y m s]
  show ?thesis
    by (intro conjI r pow_exact_cases_binary64 y m s t)
qed

text \<open>Twelve additions of the float 0.1, which is \<open>3602879701896397 / 36028797018963968\<close>, starting
  from 0.1 itself.\<close>

lemma tenth_twelve_times:
  "foldl (fadd (binary64 c)) (Fin 0) (replicate 12 (Fin (3602879701896397 / 36028797018963968)))
     = Fin (5404319552844595 / 4503599627370496)"
proof -
  have s1: "rnd64 (0 + 3602879701896397 / 36028797018963968) = Fin (3602879701896397 / 36028797018963968)"
    using is_float_tenth [of c] by (simp add: is_float_def)
  have s2: "rnd64 (3602879701896397 / 36028797018963968 + 3602879701896397 / 36028797018963968) = Fin (3602879701896397 / 18014398509481984)"
  proof -
    have "rnd64 (3602879701896397 / 36028797018963968 + 3602879701896397 / 36028797018963968) = Fin (of_int 7205759403792794 * power_int 2 (- 3 - 52))"
      by (rule rnd64_eval [OF _ _ _ _ rhe_near]) (simp_all add: power_int_minus)
    then show ?thesis by (simp add: power_int_minus)
  qed
  have s3: "rnd64 (3602879701896397 / 18014398509481984 + 3602879701896397 / 36028797018963968) = Fin (1351079888211149 / 4503599627370496)"
  proof -
    have "rnd64 (3602879701896397 / 18014398509481984 + 3602879701896397 / 36028797018963968) = Fin (of_int 5404319552844596 * power_int 2 (- 2 - 52))"
      by (rule rnd64_eval [OF _ _ _ _ rhe_tie_odd]) (simp_all add: power_int_minus)
    then show ?thesis by (simp add: power_int_minus)
  qed
  have s4: "rnd64 (1351079888211149 / 4503599627370496 + 3602879701896397 / 36028797018963968) = Fin (3602879701896397 / 9007199254740992)"
  proof -
    have "rnd64 (1351079888211149 / 4503599627370496 + 3602879701896397 / 36028797018963968) = Fin (of_int 7205759403792794 * power_int 2 (- 2 - 52))"
      by (rule rnd64_eval [OF _ _ _ _ rhe_tie_even]) (simp_all add: power_int_minus)
    then show ?thesis by (simp add: power_int_minus)
  qed
  have s5: "rnd64 (3602879701896397 / 9007199254740992 + 3602879701896397 / 36028797018963968) = Fin (1 / 2)"
  proof -
    have "rnd64 (3602879701896397 / 9007199254740992 + 3602879701896397 / 36028797018963968) = Fin (of_int 4503599627370496 * power_int 2 (- 1 - 52))"
      by (rule rnd64_eval [OF _ _ _ _ rhe_near]) (simp_all add: power_int_minus)
    then show ?thesis by (simp add: power_int_minus)
  qed
  have s6: "rnd64 (1 / 2 + 3602879701896397 / 36028797018963968) = Fin (5404319552844595 / 9007199254740992)"
  proof -
    have "rnd64 (1 / 2 + 3602879701896397 / 36028797018963968) = Fin (of_int 5404319552844595 * power_int 2 (- 1 - 52))"
      by (rule rnd64_eval [OF _ _ _ _ rhe_near]) (simp_all add: power_int_minus)
    then show ?thesis by (simp add: power_int_minus)
  qed
  have s7: "rnd64 (5404319552844595 / 9007199254740992 + 3602879701896397 / 36028797018963968) = Fin (3152519739159347 / 4503599627370496)"
  proof -
    have "rnd64 (5404319552844595 / 9007199254740992 + 3602879701896397 / 36028797018963968) = Fin (of_int 6305039478318694 * power_int 2 (- 1 - 52))"
      by (rule rnd64_eval [OF _ _ _ _ rhe_near]) (simp_all add: power_int_minus)
    then show ?thesis by (simp add: power_int_minus)
  qed
  have s8: "rnd64 (3152519739159347 / 4503599627370496 + 3602879701896397 / 36028797018963968) = Fin (7205759403792793 / 9007199254740992)"
  proof -
    have "rnd64 (3152519739159347 / 4503599627370496 + 3602879701896397 / 36028797018963968) = Fin (of_int 7205759403792793 * power_int 2 (- 1 - 52))"
      by (rule rnd64_eval [OF _ _ _ _ rhe_near]) (simp_all add: power_int_minus)
    then show ?thesis by (simp add: power_int_minus)
  qed
  have s9: "rnd64 (7205759403792793 / 9007199254740992 + 3602879701896397 / 36028797018963968) = Fin (2026619832316723 / 2251799813685248)"
  proof -
    have "rnd64 (7205759403792793 / 9007199254740992 + 3602879701896397 / 36028797018963968) = Fin (of_int 8106479329266892 * power_int 2 (- 1 - 52))"
      by (rule rnd64_eval [OF _ _ _ _ rhe_near]) (simp_all add: power_int_minus)
    then show ?thesis by (simp add: power_int_minus)
  qed
  have s10: "rnd64 (2026619832316723 / 2251799813685248 + 3602879701896397 / 36028797018963968) = Fin (9007199254740991 / 9007199254740992)"
  proof -
    have "rnd64 (2026619832316723 / 2251799813685248 + 3602879701896397 / 36028797018963968) = Fin (of_int 9007199254740991 * power_int 2 (- 1 - 52))"
      by (rule rnd64_eval [OF _ _ _ _ rhe_near]) (simp_all add: power_int_minus)
    then show ?thesis by (simp add: power_int_minus)
  qed
  have s11: "rnd64 (9007199254740991 / 9007199254740992 + 3602879701896397 / 36028797018963968) = Fin (4953959590107545 / 4503599627370496)"
  proof -
    have "rnd64 (9007199254740991 / 9007199254740992 + 3602879701896397 / 36028797018963968) = Fin (of_int 4953959590107545 * power_int 2 (0 - 52))"
      by (rule rnd64_eval [OF _ _ _ _ rhe_near]) (simp_all add: power_int_minus)
    then show ?thesis by (simp add: power_int_minus)
  qed
  have s12: "rnd64 (4953959590107545 / 4503599627370496 + 3602879701896397 / 36028797018963968) = Fin (5404319552844595 / 4503599627370496)"
  proof -
    have "rnd64 (4953959590107545 / 4503599627370496 + 3602879701896397 / 36028797018963968) = Fin (of_int 5404319552844595 * power_int 2 (0 - 52))"
      by (rule rnd64_eval [OF _ _ _ _ rhe_near]) (simp_all add: power_int_minus)
    then show ?thesis by (simp add: power_int_minus)
  qed
  have "replicate 12 (Fin (3602879701896397 / 36028797018963968)) = [Fin (3602879701896397 / 36028797018963968), Fin (3602879701896397 / 36028797018963968), Fin (3602879701896397 / 36028797018963968), Fin (3602879701896397 / 36028797018963968), Fin (3602879701896397 / 36028797018963968), Fin (3602879701896397 / 36028797018963968), Fin (3602879701896397 / 36028797018963968), Fin (3602879701896397 / 36028797018963968), Fin (3602879701896397 / 36028797018963968), Fin (3602879701896397 / 36028797018963968), Fin (3602879701896397 / 36028797018963968), Fin (3602879701896397 / 36028797018963968)]"
    by (simp add: numeral_eq_Suc)
  then show ?thesis
    by (simp only: foldl.simps fadd.simps binary64_simps s1 s2 s3 s4 s5 s6 s7 s8 s9 s10 s11 s12)
qed

text \<open>Adding 1 to \<open>2^53\<close> is lost in binary64, each of the twelve times.\<close>

lemma big_plus_one: "rnd64 (9007199254740992 + 1) = Fin 9007199254740992"
proof -
  have "rnd64 (9007199254740992 + 1) = Fin (of_int 4503599627370496 * power_int 2 (53 - 52))"
    by (rule rnd64_eval [OF _ _ _ _ rhe_tie_even]) simp_all
  then show ?thesis by simp
qed

lemma big_twelve_times:
  "foldl (fadd (binary64 c)) (Fin 9007199254740992) (replicate 12 (Fin 1)) = Fin 9007199254740992"
proof -
  have "replicate 12 (Fin 1) = [Fin 1, Fin 1, Fin 1, Fin 1, Fin 1, Fin 1, Fin 1, Fin 1, Fin 1, Fin 1, Fin 1, Fin 1]"
    by (simp add: numeral_eq_Suc)
  then show ?thesis
    by (simp only: foldl.simps fadd.simps binary64_simps big_plus_one)
qed

lemma is_float_big: "is_float (binary64 c) 9007199254740992"
proof -
  have "rnd64 (of_int 1 * power_int 2 53) = Fin (of_int 1 * power_int 2 53)"
    by (rule rnd64_repr) simp_all
  then show ?thesis by (simp add: is_float_def)
qed

text \<open>C3, as the claim has it, fails in binary64. One year of monthly contributions of
  0.1 on top of no savings gives the float 1.2 (1.1999999999999999556), which is not
  \<open>0 + 0.1 * 1 * 12\<close>; and one year of contributions of 1 on top of savings of \<open>2^53\<close>
  gives \<open>2^53\<close>, not \<open>2^53 + 12\<close>. No \<open>pow\<close> other than \<open>pow(1, k) = 1\<close> is involved, and
  \<open>sum\<close> is not called.\<close>

theorem zero_return_counterexample:
  "\<forall>c. project_savings (binary64 c) (Fin 0) (Fin (3602879701896397 / 36028797018963968)) 1 (Fin 0)
         = Inr (Fin (5404319552844595 / 4503599627370496))
      \<and> project_savings (binary64 c) (Fin 0) (Fin (3602879701896397 / 36028797018963968)) 1 (Fin 0)
         \<noteq> Inr (Fin (0 + (3602879701896397 / 36028797018963968) * of_int 1 * 12))
      \<and> project_savings (binary64 c) (Fin 9007199254740992) (Fin 1) 1 (Fin 0)
         = Inr (Fin 9007199254740992)
      \<and> project_savings (binary64 c) (Fin 9007199254740992) (Fin 1) 1 (Fin 0)
         \<noteq> Inr (Fin (9007199254740992 + 1 * of_int 1 * 12))"
proof
  fix c
  have r: "rnd (binary64 c) = rnd64" by simp
  have z: "is_float (binary64 c) 0" and o: "is_float (binary64 c) 1"
    using is_float_binary64_of_int [of 0 c] is_float_binary64_of_int [of 1 c] by simp_all
  have y: "(0::int) \<le> 1" "(1::int) * 12 < 2 ^ 53" by simp_all
  have a: "project_savings (binary64 c) (Fin 0) (Fin (3602879701896397 / 36028797018963968)) 1 (Fin 0) = Inr (Fin (5404319552844595 / 4503599627370496))"
    using project_savings_zero_rate_foldl [OF r pow_exact_cases_binary64 y z is_float_tenth]
    by (simp add: tenth_twelve_times)
  have b: "project_savings (binary64 c) (Fin 9007199254740992) (Fin 1) 1 (Fin 0) = Inr (Fin 9007199254740992)"
    using project_savings_zero_rate_foldl [OF r pow_exact_cases_binary64 y is_float_big o]
    by (simp add: big_twelve_times)
  show "project_savings (binary64 c) (Fin 0) (Fin (3602879701896397 / 36028797018963968)) 1 (Fin 0)
         = Inr (Fin (5404319552844595 / 4503599627370496))
      \<and> project_savings (binary64 c) (Fin 0) (Fin (3602879701896397 / 36028797018963968)) 1 (Fin 0)
         \<noteq> Inr (Fin (0 + (3602879701896397 / 36028797018963968) * of_int 1 * 12))
      \<and> project_savings (binary64 c) (Fin 9007199254740992) (Fin 1) 1 (Fin 0)
         = Inr (Fin 9007199254740992)
      \<and> project_savings (binary64 c) (Fin 9007199254740992) (Fin 1) 1 (Fin 0)
         \<noteq> Inr (Fin (9007199254740992 + 1 * of_int 1 * 12))"
    by (simp add: a b)
qed

end
